theory Spec2Isabelle
  imports Main "HOL-Library.Sublist" "HOL-Library.Multiset"
begin

section \<open>Word segmentation with a prefix trie (parse\_words.py)\<close>

text \<open>
  The module under study is the recursive solution of \<^verbatim>\<open>parse_words.py\<close>:
  \<^verbatim>\<open>add_to_prefix_trie\<close>, \<^verbatim>\<open>make_prefix_trie\<close>, \<^verbatim>\<open>prefixes_of\<close> and
  \<^verbatim>\<open>solution_recursive\<close> with its memoised inner function \<^verbatim>\<open>recur\<close>.
  Python strings are modelled as \<^typ>\<open>string\<close>, exceptions as values of \<open>error\<close>.
\<close>

subsection \<open>Exceptions\<close>

text \<open>
  The three exceptions the recursive solution can raise: \<open>NameError\<close> from the
  undefined name \<^verbatim>\<open>Non\<close> (line 139), \<open>TypeError\<close> from \<^verbatim>\<open>' '.join\<close> applied to an
  object that is not iterable (line 140), and \<open>RecursionError\<close> when the nesting of
  \<^verbatim>\<open>recur\<close> exceeds the interpreter's recursion limit.
\<close>

datatype error = NameError | TypeError | RecursionError

subsection \<open>Chains: singly linked lists\<close>

text \<open>
  \<^verbatim>\<open>ChainNull\<close> is the empty chain (the singleton \<^verbatim>\<open>ChainLink.EMPTY\<close>), \<^verbatim>\<open>ChainLink\<close> a
  node with fields \<^verbatim>\<open>value\<close> and \<^verbatim>\<open>suffix\<close>.
\<close>

datatype chain = ChainNull | ChainLink string chain

definition prepend :: "string \<Rightarrow> chain \<Rightarrow> chain" where
  "prepend v c = ChainLink v c"

text \<open>
  \<^verbatim>\<open>ChainLink.__iter__\<close>: the values yielded while the current node is not
  \<^verbatim>\<open>ChainLink.EMPTY\<close>. Only \<^verbatim>\<open>ChainLink\<close> has this method; class \<^verbatim>\<open>ChainNull\<close> has an
  empty body.
\<close>

fun chain_iter :: "chain \<Rightarrow> string list" where
  "chain_iter ChainNull = []"
| "chain_iter (ChainLink v s) = v # chain_iter s"

text \<open>\<^verbatim>\<open>sep.join(parts)\<close> on a sequence of strings.\<close>

fun join :: "string \<Rightarrow> string list \<Rightarrow> string" where
  "join sep [] = []"
| "join sep [x] = x"
| "join sep (x # y # ys) = x @ sep @ join sep (y # ys)"

text \<open>
  \<^verbatim>\<open>sep.join(chain)\<close> on a chain object: a \<^verbatim>\<open>ChainLink\<close> is iterated by its
  \<^verbatim>\<open>__iter__\<close>; a \<^verbatim>\<open>ChainNull\<close> instance has no \<^verbatim>\<open>__iter__\<close>, so \<^verbatim>\<open>str.join\<close> raises
  \<open>TypeError\<close>.
\<close>

fun join_chain :: "string \<Rightarrow> chain \<Rightarrow> error + string" where
  "join_chain sep ChainNull = Inl TypeError"
| "join_chain sep (ChainLink v s) = Inr (join sep (chain_iter (ChainLink v s)))"

subsection \<open>The prefix trie\<close>

text \<open>
  A trie is a \<^verbatim>\<open>dict\<close> whose special key \<^verbatim>\<open>''\<close> holds the word that ends at this
  node (field \<open>marker\<close>; \<open>None\<close> when the key is absent) and whose one-letter keys
  hold the sub-tries (field \<open>edges\<close>). The empty dict is \<open>Trie None Map.empty\<close>.
\<close>

datatype trie = Trie (marker: "string option") (edges: "char \<Rightarrow> trie option")

definition empty_trie :: trie where
  "empty_trie = Trie None Map.empty"

text \<open>
  The loop of \<^verbatim>\<open>add_to_prefix_trie\<close> over the letters still to walk; \<open>word\<close> is the
  whole word, stored under \<^verbatim>\<open>''\<close> at the node the walk ends in. The Python mutates the
  dict in place; the model returns the updated trie.
\<close>

fun add_letters :: "trie \<Rightarrow> string \<Rightarrow> string \<Rightarrow> trie" where
  "add_letters t [] word = Trie (Some word) (edges t)"
| "add_letters t (letter # rest) word =
     (case edges t letter of
        Some v \<Rightarrow> Trie (marker t) ((edges t)(letter \<mapsto> add_letters v rest word))
      | None \<Rightarrow> Trie (marker t) ((edges t)(letter \<mapsto> add_letters empty_trie rest word)))"

definition add_to_prefix_trie :: "trie \<Rightarrow> string \<Rightarrow> trie" where
  "add_to_prefix_trie t word = add_letters t word word"

text \<open>
  \<^verbatim>\<open>make_prefix_trie\<close>: the words are inserted in the order the iterable yields
  them, starting from the empty dict.
\<close>

definition make_prefix_trie :: "string list \<Rightarrow> trie" where
  "make_prefix_trie words = fold (\<lambda>word t. add_to_prefix_trie t word) words empty_trie"

text \<open>
  \<^verbatim>\<open>prefixes_of\<close> is a generator; the model is the list of the values it yields, in
  order. \<open>prefixes_walk\<close> is its \<^verbatim>\<open>for letter in text\<close> loop, which returns as soon
  as a letter has no edge.
\<close>

fun prefixes_walk :: "string \<Rightarrow> trie \<Rightarrow> string list" where
  "prefixes_walk [] t = []"
| "prefixes_walk (letter # rest) t =
     (case edges t letter of
        None \<Rightarrow> []
      | Some t' \<Rightarrow>
          (case marker t' of
             Some pfx \<Rightarrow> pfx # prefixes_walk rest t'
           | None \<Rightarrow> prefixes_walk rest t'))"

definition prefixes_of :: "string \<Rightarrow> trie \<Rightarrow> string list" where
  "prefixes_of text t =
     (case marker t of
        Some pfx \<Rightarrow> pfx # prefixes_walk text t
      | None \<Rightarrow> prefixes_walk text t)"

subsection \<open>The memoised search\<close>

text \<open>
  \<^verbatim>\<open>functools.cache\<close> keeps a dict from the argument to the returned value (a returned
  \<^verbatim>\<open>None\<close> is cached too; an exception stores nothing). Field \<open>cache\<close> is that dict.
  Field \<open>trace\<close> is a ghost: it lists the indices for which the body of \<^verbatim>\<open>recur\<close>
  was entered, in order, and is never read by the program.
\<close>

record memo =
  cache :: "nat \<Rightarrow> chain option option"
  trace :: "nat list"

definition empty_memo :: memo where
  "empty_memo = \<lparr>cache = Map.empty, trace = []\<rparr>"

text \<open>
  \<open>recur text trie limit index m\<close>: the cached function called at \<open>index\<close> with
  memo \<open>m\<close>, when \<open>limit\<close> further nested frames of \<^verbatim>\<open>recur\<close> are available. A
  cache hit returns the stored value. On a miss the body runs (one frame): the empty
  rest of the text gives \<^verbatim>\<open>ChainLink.EMPTY\<close>, otherwise \<open>for_prefixes\<close> is the
  \<^verbatim>\<open>for prefix in prefixes_of(current_text, trie)\<close> loop, which returns at the first
  prefix whose suffix has a solution and falls off the end (returning \<^verbatim>\<open>None\<close>) when
  there is none. An exception leaves the loop and the body at once.
\<close>

fun recur :: "string \<Rightarrow> trie \<Rightarrow> nat \<Rightarrow> nat \<Rightarrow> memo \<Rightarrow> (error + chain option) \<times> memo"
and for_prefixes ::
  "string \<Rightarrow> trie \<Rightarrow> nat \<Rightarrow> nat \<Rightarrow> string list \<Rightarrow> memo \<Rightarrow> (error + chain option) \<times> memo"
where
  "recur text trie limit index m =
     (case cache m index of
        Some r \<Rightarrow> (Inr r, m)
      | None \<Rightarrow>
          (case limit of
             0 \<Rightarrow> (Inl RecursionError, m)
           | Suc depth \<Rightarrow>
               (let m1 = m\<lparr>trace := trace m @ [index]\<rparr>;
                    current_text = drop index text
                in if current_text = []
                   then (Inr (Some ChainNull), m1\<lparr>cache := (cache m1)(index \<mapsto> Some ChainNull)\<rparr>)
                   else (case for_prefixes text trie depth index (prefixes_of current_text trie) m1 of
                           (Inl e, m2) \<Rightarrow> (Inl e, m2)
                         | (Inr r, m2) \<Rightarrow> (Inr r, m2\<lparr>cache := (cache m2)(index \<mapsto> r)\<rparr>)))))"
| "for_prefixes text trie depth index [] m = (Inr None, m)"
| "for_prefixes text trie depth index (pfx # rest) m =
     (case recur text trie depth (index + length pfx) m of
        (Inl e, m') \<Rightarrow> (Inl e, m')
      | (Inr None, m') \<Rightarrow> for_prefixes text trie depth index rest m'
      | (Inr (Some suffix_solution), m') \<Rightarrow> (Inr (Some (prepend pfx suffix_solution)), m'))"

text \<open>
  \<^verbatim>\<open>solution_recursive\<close>. \<open>words\<close> lists the set in the order its iteration yields
  the members; \<open>limit\<close> is the number of nested \<^verbatim>\<open>recur\<close> frames the interpreter
  allows. The \<^verbatim>\<open>chain is None\<close> branch evaluates the undefined name \<^verbatim>\<open>Non\<close>.
\<close>

definition solution_recursive :: "nat \<Rightarrow> string \<Rightarrow> string list \<Rightarrow> error + string option" where
  "solution_recursive limit text words =
     (let trie = make_prefix_trie words
      in case fst (recur text trie limit 0 empty_memo) of
           Inl e \<Rightarrow> Inl e
         | Inr None \<Rightarrow> Inl NameError
         | Inr (Some chain) \<Rightarrow>
             (case join_chain '' '' chain of
                Inl e \<Rightarrow> Inl e
              | Inr s \<Rightarrow> Inr (Some s)))"

subsection \<open>Specification vocabulary\<close>

text \<open>
  The remaining definitions are not part of the program; the statements below are
  phrased with them. \<open>descend t path\<close> follows the letters of \<open>path\<close> from node
  \<open>t\<close>; \<open>word_at t path\<close> is the value stored under \<^verbatim>\<open>''\<close> at the node reached.
\<close>

fun descend :: "trie \<Rightarrow> string \<Rightarrow> trie option" where
  "descend t [] = Some t"
| "descend t (c # cs) = (case edges t c of None \<Rightarrow> None | Some t' \<Rightarrow> descend t' cs)"

definition word_at :: "trie \<Rightarrow> string \<Rightarrow> string option" where
  "word_at t path = (case descend t path of None \<Rightarrow> None | Some t' \<Rightarrow> marker t')"

text \<open>A text is segmentable when it is the concatenation of words of the dictionary.\<close>

definition segmentable :: "string set \<Rightarrow> string \<Rightarrow> bool" where
  "segmentable D s = (\<exists>ws. set ws \<subseteq> D \<and> concat ws = s)"

text \<open>
  What a value returned by \<^verbatim>\<open>recur(i)\<close> must satisfy: a chain spells the rest of the
  text with words of the dictionary, and is the empty chain exactly at the end of the
  text; \<^verbatim>\<open>None\<close> means that the rest of the text has no segmentation.
\<close>

definition result_ok :: "string set \<Rightarrow> string \<Rightarrow> nat \<Rightarrow> chain option \<Rightarrow> bool" where
  "result_ok D text i r =
     (case r of
        Some c \<Rightarrow> set (chain_iter c) \<subseteq> D \<and> concat (chain_iter c) = drop i text
                  \<and> (c = ChainNull) = (drop i text = [])
      | None \<Rightarrow> \<not> segmentable D (drop i text))"

definition cache_ok :: "string set \<Rightarrow> string \<Rightarrow> memo \<Rightarrow> bool" where
  "cache_ok D text m = (\<forall>i r. cache m i = Some r \<longrightarrow> result_ok D text i r)"

text \<open>A trie answers prefix queries for the dictionary \<open>D\<close>.\<close>

definition trie_for :: "string set \<Rightarrow> trie \<Rightarrow> bool" where
  "trie_for D trie = (\<forall>s. set (prefixes_of s trie) = {p. p \<in> D \<and> prefix p s})"

definition recur_post ::
  "string set \<Rightarrow> string \<Rightarrow> nat \<Rightarrow> error + chain option \<Rightarrow> memo \<Rightarrow> bool" where
  "recur_post D text index res m' =
     (cache_ok D text m' \<and> (\<forall>e. res = Inl e \<longrightarrow> e = RecursionError)
      \<and> (\<forall>r. res = Inr r \<longrightarrow> result_ok D text index r))"

definition loop_post ::
  "string set \<Rightarrow> string \<Rightarrow> nat \<Rightarrow> string list \<Rightarrow> error + chain option \<Rightarrow> memo \<Rightarrow> bool" where
  "loop_post D text index ps res m' =
     (cache_ok D text m' \<and> (\<forall>e. res = Inl e \<longrightarrow> e = RecursionError)
      \<and> (res = Inr None \<longrightarrow> (\<forall>p\<in>set ps. \<not> segmentable D (drop (index + length p) text)))
      \<and> (\<forall>c. res = Inr (Some c) \<longrightarrow>
             c \<noteq> ChainNull \<and> set (chain_iter c) \<subseteq> D \<and> concat (chain_iter c) = drop index text))"

text \<open>
  The indices whose body has been entered and has not returned yet are those in the
  trace and not in the cache.
\<close>

definition inprog :: "memo \<Rightarrow> nat set" where
  "inprog m = set (trace m) - dom (cache m)"

definition trace_pre :: "string \<Rightarrow> nat \<Rightarrow> memo \<Rightarrow> bool" where
  "trace_pre text bound m =
     (distinct (trace m) \<and> (\<forall>j\<in>set (trace m). j \<le> length text) \<and> (\<forall>j\<in>inprog m. j < bound))"

definition trace_post :: "string \<Rightarrow> memo \<Rightarrow> error + chain option \<Rightarrow> memo \<Rightarrow> bool" where
  "trace_post text m res m' =
     ((\<exists>r. res = Inr r) \<and> distinct (trace m') \<and> (\<forall>j\<in>set (trace m'). j \<le> length text)
      \<and> inprog m' \<subseteq> inprog m)"

text \<open>Every prefix the trie yields is a non-empty prefix of the queried text.\<close>

definition advancing :: "trie \<Rightarrow> bool" where
  "advancing trie = (\<forall>s. \<forall>p\<in>set (prefixes_of s trie). p \<noteq> [] \<and> prefix p s)"

declare recur.simps [simp del]

section \<open>The trie\<close>

subsection \<open>What is stored where\<close>

lemma word_at_Nil [simp]: "word_at t [] = marker t"
  by (simp add: word_at_def)

lemma word_at_Cons:
  "word_at t (c # cs) = (case edges t c of None \<Rightarrow> None | Some t' \<Rightarrow> word_at t' cs)"
  by (simp add: word_at_def split: option.splits)

lemma word_at_empty_trie [simp]: "word_at empty_trie path = None"
  by (cases path) (simp_all add: word_at_Cons empty_trie_def)

lemma word_at_add_letters:
  "word_at (add_letters t ls w) path = (if path = ls then Some w else word_at t path)"
proof (induction ls arbitrary: t path)
  case Nil
  then show ?case by (cases path) (simp_all add: word_at_Cons)
next
  case (Cons l ls)
  show ?case
  proof (cases path)
    case Nil
    then show ?thesis by (simp split: option.splits)
  next
    case (Cons c cs)
    then show ?thesis
      using Cons.IH by (auto simp: word_at_Cons split: option.splits)
  qed
qed

lemma word_at_add_to_prefix_trie:
  "word_at (add_to_prefix_trie t w) path = (if path = w then Some w else word_at t path)"
  by (simp add: add_to_prefix_trie_def word_at_add_letters)

lemma word_at_fold_add:
  "word_at (fold (\<lambda>word t. add_to_prefix_trie t word) ws t) path =
     (if path \<in> set ws then Some path else word_at t path)"
  by (induction ws arbitrary: t) (auto simp: word_at_add_to_prefix_trie)

lemma word_at_make_prefix_trie:
  "word_at (make_prefix_trie ws) path = (if path \<in> set ws then Some path else None)"
  by (simp add: make_prefix_trie_def word_at_fold_add)

lemma map_filter_map:
  "List.map_filter f (map g xs) = List.map_filter (\<lambda>x. f (g x)) xs"
  by (induction xs) (simp_all split: option.splits)

lemma prefixes_walk_word_at:
  "prefixes_walk text t = List.map_filter (word_at t) (tl (prefixes text))"
proof (induction "text" arbitrary: t)
  case Nil
  then show ?case by simp
next
  case (Cons c cs)
  have tl_eq: "prefixes cs = [] # tl (prefixes cs)"
    by (cases cs) simp_all
  show ?case
  proof (cases "edges t c")
    case None
    then show ?thesis
      by (simp add: List.map_filter_def word_at_Cons)
  next
    case (Some t')
    have "List.map_filter (word_at t) (map ((#) c) (prefixes cs))
            = List.map_filter (word_at t') (prefixes cs)"
      using Some by (simp add: map_filter_map word_at_Cons)
    also have "\<dots> = List.map_filter (word_at t') ([] # tl (prefixes cs))"
      using tl_eq by simp
    finally show ?thesis
      using Some Cons.IH [of t'] by (simp split: option.splits)
  qed
qed

lemma prefixes_of_word_at:
  "prefixes_of text t = List.map_filter (word_at t) (prefixes text)"
proof -
  have "prefixes text = [] # tl (prefixes text)"
    by (cases "text") simp_all
  then have "List.map_filter (word_at t) (prefixes text)
               = List.map_filter (word_at t) ([] # tl (prefixes text))"
    by simp
  then show ?thesis
    by (simp add: prefixes_of_def prefixes_walk_word_at split: option.splits)
qed

lemma map_filter_if_Some:
  "List.map_filter (\<lambda>x. if P x then Some x else None) xs = filter P xs"
  by (induction xs) simp_all

lemma prefixes_of_make_prefix_trie:
  "prefixes_of text (make_prefix_trie ws) = filter (\<lambda>p. p \<in> set ws) (prefixes text)"
proof -
  have "word_at (make_prefix_trie ws) = (\<lambda>p. if p \<in> set ws then Some p else None)"
    by (rule ext) (simp add: word_at_make_prefix_trie)
  then show ?thesis
    by (simp add: prefixes_of_word_at map_filter_if_Some)
qed

subsection \<open>Insertion is idempotent and order-independent\<close>

lemma add_letters_idem:
  "add_letters (add_letters t ls w) ls w = add_letters t ls w"
  by (induction ls arbitrary: t) (simp_all split: option.splits)

lemma add_letters_Cons:
  "add_letters t (c # rest) w =
     Trie (marker t)
       ((edges t)(c \<mapsto> add_letters (case edges t c of Some v \<Rightarrow> v | None \<Rightarrow> empty_trie) rest w))"
  by (simp split: option.splits)

lemma add_letters_commute:
  "l1 \<noteq> l2 \<or> w1 = w2 \<Longrightarrow>
   add_letters (add_letters t l1 w1) l2 w2 = add_letters (add_letters t l2 w2) l1 w1"
proof (induction l1 arbitrary: t l2)
  case Nil
  then show ?case
    by (cases l2) (simp_all add: add_letters_Cons del: add_letters.simps(2))
next
  case (Cons c cs)
  show ?case
  proof (cases l2)
    case Nil
    then show ?thesis
      by (simp add: add_letters_Cons del: add_letters.simps(2))
  next
    case l2: (Cons d ds)
    define child where "child = (case edges t c of Some v \<Rightarrow> v | None \<Rightarrow> empty_trie)"
    show ?thesis
    proof (cases "c = d")
      case True
      with l2 Cons.prems have "cs \<noteq> ds \<or> w1 = w2" by auto
      then have "add_letters (add_letters child cs w1) ds w2
                   = add_letters (add_letters child ds w2) cs w1"
        by (rule Cons.IH)
      then show ?thesis
        using l2 True
        by (simp add: add_letters_Cons child_def del: add_letters.simps(2))
    next
      case False
      then show ?thesis
        using l2
        by (simp add: add_letters_Cons fun_eq_iff del: add_letters.simps(2))
    qed
  qed
qed

lemma add_to_prefix_trie_idem:
  "add_to_prefix_trie (add_to_prefix_trie t w) w = add_to_prefix_trie t w"
  by (simp add: add_to_prefix_trie_def add_letters_idem)

lemma add_to_prefix_trie_commute:
  "add_to_prefix_trie (add_to_prefix_trie t v) w = add_to_prefix_trie (add_to_prefix_trie t w) v"
proof (cases "v = w")
  case True
  then show ?thesis by simp
next
  case False
  then have "v \<noteq> w \<or> v = w" by simp
  then show ?thesis
    unfolding add_to_prefix_trie_def by (rule add_letters_commute)
qed

lemma fold_add_absorb:
  "w \<in> set ws \<Longrightarrow>
   fold (\<lambda>word t. add_to_prefix_trie t word) ws (add_to_prefix_trie t w)
     = fold (\<lambda>word t. add_to_prefix_trie t word) ws t"
proof (induction ws arbitrary: t)
  case Nil
  then show ?case by simp
next
  case (Cons x xs)
  show ?case
  proof (cases "w = x")
    case True
    then show ?thesis by (simp add: add_to_prefix_trie_idem)
  next
    case False
    with Cons.prems have "w \<in> set xs" by simp
    from Cons.IH [OF this, of "add_to_prefix_trie t x"] show ?thesis
      by (simp add: add_to_prefix_trie_commute [of t w x])
  qed
qed

lemma fold_add_remdups:
  "fold (\<lambda>word t. add_to_prefix_trie t word) (remdups ws) t
     = fold (\<lambda>word t. add_to_prefix_trie t word) ws t"
  by (induction ws arbitrary: t) (simp_all add: fold_add_absorb)

lemma make_prefix_trie_set_eq:
  assumes "set ws = set ws'"
  shows "make_prefix_trie ws = make_prefix_trie ws'"
proof -
  let ?f = "\<lambda>word t. add_to_prefix_trie t word"
  have "mset (remdups ws) = mset (remdups ws')"
    using assms by (simp add: set_eq_iff_mset_remdups_eq)
  then have "fold ?f (remdups ws) = fold ?f (remdups ws')"
  proof (rule fold_multiset_equiv [rotated])
    fix x y
    show "?f x \<circ> ?f y = ?f y \<circ> ?f x"
      by (rule ext) (simp add: add_to_prefix_trie_commute [of _ y x])
  qed
  then have "fold ?f (remdups ws) empty_trie = fold ?f (remdups ws') empty_trie"
    by simp
  then show ?thesis
    by (simp add: make_prefix_trie_def fold_add_remdups)
qed

subsection \<open>The prefix query stops at the first missing edge\<close>

lemma prefixes_walk_short_circuit:
  "descend t (take (Suc k) s) = None \<Longrightarrow> prefixes_walk s t = prefixes_walk (take k s) t"
proof (induction s arbitrary: t k)
  case Nil
  then show ?case by simp
next
  case (Cons c cs)
  show ?case
  proof (cases "edges t c")
    case None
    then show ?thesis by (cases k) simp_all
  next
    case (Some t')
    show ?thesis
    proof (cases k)
      case 0
      with Some Cons.prems show ?thesis by simp
    next
      case (Suc k')
      with Some Cons.prems have "descend t' (take (Suc k') cs) = None" by simp
      from Cons.IH [OF this] Some Suc show ?thesis by (simp split: option.splits)
    qed
  qed
qed

lemma prefixes_of_short_circuit:
  "descend t (take (Suc k) s) = None \<Longrightarrow> prefixes_of s t = prefixes_of (take k s) t"
  using prefixes_walk_short_circuit [of t k s] by (simp add: prefixes_of_def split: option.splits)

lemma sorted_wrt_length_prefixes:
  "sorted_wrt (\<lambda>p q. length p < length q) (prefixes s)"
  by (induction s) (auto simp: sorted_wrt_map)

section \<open>The memoised search\<close>

subsection \<open>Unfolding the cached function\<close>

lemma recur_hit:
  "cache m index = Some r \<Longrightarrow> recur text trie limit index m = (Inr r, m)"
  by (simp add: recur.simps)

lemma recur_zero:
  "cache m index = None \<Longrightarrow> recur text trie 0 index m = (Inl RecursionError, m)"
  by (simp add: recur.simps)

lemma recur_end:
  "cache m index = None \<Longrightarrow> drop index text = [] \<Longrightarrow>
   recur text trie (Suc depth) index m =
     (Inr (Some ChainNull),
      m\<lparr>trace := trace m @ [index], cache := (cache m)(index \<mapsto> Some ChainNull)\<rparr>)"
  by (simp add: recur.simps)

lemma recur_step:
  "cache m index = None \<Longrightarrow> drop index text \<noteq> [] \<Longrightarrow>
   recur text trie (Suc depth) index m =
     (case for_prefixes text trie depth index (prefixes_of (drop index text) trie)
             (m\<lparr>trace := trace m @ [index]\<rparr>) of
        (Inl e, m2) \<Rightarrow> (Inl e, m2)
      | (Inr r, m2) \<Rightarrow> (Inr r, m2\<lparr>cache := (cache m2)(index \<mapsto> r)\<rparr>))"
  by (simp add: recur.simps Let_def)

subsection \<open>Every cached and returned value is right\<close>

lemma segmentable_first:
  assumes "segmentable D s" "s \<noteq> []"
  shows "\<exists>p. p \<in> D \<and> prefix p s \<and> segmentable D (drop (length p) s)"
proof -
  from assms obtain ws where ws: "set ws \<subseteq> D" "concat ws = s"
    by (auto simp: segmentable_def)
  with assms(2) obtain w ws' where "ws = w # ws'" by (cases ws) auto
  with ws have "w \<in> D" "prefix w s" "set ws' \<subseteq> D" "concat ws' = drop (length w) s"
    by auto
  then show ?thesis unfolding segmentable_def by blast
qed

lemma for_prefixes_sound:
  assumes IH: "\<And>index m res m'. cache_ok D text m \<Longrightarrow>
                 recur text trie depth index m = (res, m') \<Longrightarrow> recur_post D text index res m'"
  shows "cache_ok D text m \<Longrightarrow> \<forall>p\<in>set ps. p \<in> D \<and> prefix p (drop index text) \<Longrightarrow>
         for_prefixes text trie depth index ps m = (res, m') \<Longrightarrow>
         loop_post D text index ps res m'"
proof (induction ps arbitrary: m)
  case Nil
  then show ?case by (auto simp: loop_post_def)
next
  case (Cons p ps)
  obtain res1 m1 where r1: "recur text trie depth (index + length p) m = (res1, m1)"
    by (cases "recur text trie depth (index + length p) m")
  from IH [OF Cons.prems(1) r1]
  have ok1: "cache_ok D text m1" and err1: "\<And>e. res1 = Inl e \<Longrightarrow> e = RecursionError"
    and val1: "\<And>r. res1 = Inr r \<Longrightarrow> result_ok D text (index + length p) r"
    by (auto simp: recur_post_def)
  from Cons.prems(2) have p: "p \<in> D" "prefix p (drop index text)"
    and ps: "\<forall>q\<in>set ps. q \<in> D \<and> prefix q (drop index text)"
    by auto
  show ?case
  proof (cases res1)
    case (Inl e)
    with Cons.prems(3) r1 ok1 err1 show ?thesis by (auto simp: loop_post_def)
  next
    case (Inr r)
    show ?thesis
    proof (cases r)
      case None
      with Inr r1 Cons.prems(3)
      have "for_prefixes text trie depth index ps m1 = (res, m')" by simp
      from Cons.IH [OF ok1 ps this] val1 [OF Inr] None show ?thesis
        by (auto simp: result_ok_def loop_post_def)
    next
      case (Some s)
      with Inr r1 Cons.prems(3) have res: "res = Inr (Some (ChainLink p s))" "m' = m1"
        by (auto simp: prepend_def)
      from val1 [OF Inr] Some have s: "set (chain_iter s) \<subseteq> D"
        "concat (chain_iter s) = drop (index + length p) text"
        by (auto simp: result_ok_def)
      from p(2) obtain z where z: "drop index text = p @ z" by (auto simp: prefix_def)
      have "drop (index + length p) text = drop (length p) (drop index text)"
        by (simp add: add.commute)
      with z s(2) have "p @ concat (chain_iter s) = drop index text" by simp
      with res ok1 s(1) p(1) show ?thesis by (simp add: loop_post_def)
    qed
  qed
qed

lemma recur_sound:
  assumes T: "trie_for D trie"
  shows "cache_ok D text m \<Longrightarrow> recur text trie limit index m = (res, m') \<Longrightarrow>
         recur_post D text index res m'"
proof (induction limit arbitrary: index m res m')
  case 0
  then show ?case
    by (cases "cache m index") (auto simp: recur_zero recur_hit cache_ok_def recur_post_def)
next
  case (Suc depth)
  show ?case
  proof (cases "cache m index")
    case (Some r)
    with Suc.prems show ?thesis by (auto simp: recur_hit cache_ok_def recur_post_def)
  next
    case None
    show ?thesis
    proof (cases "drop index text = []")
      case True
      with None Suc.prems(2)
      have res: "res = Inr (Some ChainNull)"
        "m' = m\<lparr>trace := trace m @ [index], cache := (cache m)(index \<mapsto> Some ChainNull)\<rparr>"
        by (simp_all add: recur_end)
      have here: "result_ok D text index (Some ChainNull)"
        using True by (simp add: result_ok_def)
      with Suc.prems(1) res show ?thesis
        by (auto simp: cache_ok_def recur_post_def)
    next
      case False
      let ?m1 = "m\<lparr>trace := trace m @ [index]\<rparr>"
      let ?ps = "prefixes_of (drop index text) trie"
      obtain res2 m2 where r2: "for_prefixes text trie depth index ?ps ?m1 = (res2, m2)"
        by (cases "for_prefixes text trie depth index ?ps ?m1")
      have ok1: "cache_ok D text ?m1"
        using Suc.prems(1) by (simp add: cache_ok_def)
      have ps: "\<forall>p\<in>set ?ps. p \<in> D \<and> prefix p (drop index text)"
        using T by (simp add: trie_for_def)
      have "loop_post D text index ?ps res2 m2"
        using ok1 ps r2 by (rule for_prefixes_sound [rotated]) (rule Suc.IH)
      then have ok2: "cache_ok D text m2" and err2: "\<And>e. res2 = Inl e \<Longrightarrow> e = RecursionError"
        and none2: "res2 = Inr None \<Longrightarrow>
              \<forall>p\<in>set ?ps. \<not> segmentable D (drop (index + length p) text)"
        and some2: "\<And>c. res2 = Inr (Some c) \<Longrightarrow>
              c \<noteq> ChainNull \<and> set (chain_iter c) \<subseteq> D \<and> concat (chain_iter c) = drop index text"
        unfolding loop_post_def by blast+
      show ?thesis
      proof (cases res2)
        case (Inl e)
        with None False r2 Suc.prems(2) ok2 err2 show ?thesis
          by (auto simp: recur_step recur_post_def)
      next
        case (Inr r)
        with None False r2 Suc.prems(2)
        have res: "res = Inr r" "m' = m2\<lparr>cache := (cache m2)(index \<mapsto> r)\<rparr>"
          by (simp_all add: recur_step)
        have here: "result_ok D text index r"
        proof (cases r)
          case None
          have "\<not> segmentable D (drop index text)"
          proof
            assume "segmentable D (drop index text)"
            from segmentable_first [OF this False] obtain p where
              p: "p \<in> D" "prefix p (drop index text)"
                "segmentable D (drop (length p) (drop index text))" by blast
            then have "p \<in> set ?ps" using T by (simp add: trie_for_def)
            with none2 Inr None have "\<not> segmentable D (drop (index + length p) text)"
              by blast
            with p(3) show False by (simp add: add.commute)
          qed
          with None show ?thesis by (simp add: result_ok_def)
        next
          case (Some c)
          with some2 Inr False show ?thesis by (simp add: result_ok_def)
        qed
        with ok2 res show ?thesis
          by (auto simp: cache_ok_def recur_post_def)
      qed
    qed
  qed
qed

subsection \<open>Progress: enough frames, and each body entered once\<close>

lemma for_prefixes_progress:
  assumes IH: "\<And>index m res m'. trace_pre text index m \<Longrightarrow> index \<le> length text \<Longrightarrow>
                 length text - index < depth \<Longrightarrow>
                 recur text trie depth index m = (res, m') \<Longrightarrow> trace_post text m res m'"
  shows "trace_pre text (Suc index) m \<Longrightarrow>
         \<forall>p\<in>set ps. p \<noteq> [] \<and> index + length p \<le> length text \<Longrightarrow>
         length text - index \<le> depth \<Longrightarrow>
         for_prefixes text trie depth index ps m = (res, m') \<Longrightarrow> trace_post text m res m'"
proof (induction ps arbitrary: m)
  case Nil
  then show ?case by (auto simp: trace_post_def trace_pre_def)
next
  case (Cons p ps)
  from Cons.prems(2) have p: "p \<noteq> []" "index + length p \<le> length text"
    and ps: "\<forall>q\<in>set ps. q \<noteq> [] \<and> index + length q \<le> length text"
    by auto
  from p have lp: "0 < length p" by simp
  obtain res1 m1 where r1: "recur text trie depth (index + length p) m = (res1, m1)"
    by (cases "recur text trie depth (index + length p) m")
  have "\<And>j. j < Suc index \<Longrightarrow> j < index + length p"
    using p(1) by (cases p) auto
  with Cons.prems(1) have pre1: "trace_pre text (index + length p) m"
    unfolding trace_pre_def by blast
  have fuel1: "length text - (index + length p) < depth"
    using Cons.prems(3) p(2) lp by linarith
  from IH [OF pre1 p(2) fuel1 r1] have post1: "trace_post text m res1 m1" .
  then obtain r where r: "res1 = Inr r" by (auto simp: trace_post_def)
  show ?case
  proof (cases r)
    case None
    with r r1 Cons.prems(4)
    have loop: "for_prefixes text trie depth index ps m1 = (res, m')" by simp
    have pre2: "trace_pre text (Suc index) m1"
      using post1 Cons.prems(1) by (auto simp: trace_post_def trace_pre_def)
    from Cons.IH [OF pre2 ps Cons.prems(3) loop] post1 show ?thesis
      by (auto simp: trace_post_def)
  next
    case (Some s)
    with r r1 Cons.prems(4) have "res = Inr (Some (prepend p s))" "m' = m1" by auto
    with post1 show ?thesis by (auto simp: trace_post_def)
  qed
qed

lemma recur_progress:
  assumes A: "advancing trie"
  shows "trace_pre text index m \<Longrightarrow> index \<le> length text \<Longrightarrow> length text - index < limit \<Longrightarrow>
         recur text trie limit index m = (res, m') \<Longrightarrow> trace_post text m res m'"
proof (induction limit arbitrary: index m res m')
  case 0
  then show ?case by simp
next
  case (Suc depth)
  show ?case
  proof (cases "cache m index")
    case (Some r)
    with Suc.prems show ?thesis
      by (auto simp: recur_hit trace_post_def trace_pre_def)
  next
    case None
    have fresh: "index \<notin> set (trace m)"
    proof
      assume "index \<in> set (trace m)"
      with None have "index \<in> inprog m" by (auto simp: inprog_def)
      with Suc.prems(1) show False by (auto simp: trace_pre_def)
    qed
    let ?m1 = "m\<lparr>trace := trace m @ [index]\<rparr>"
    have inprog1: "inprog ?m1 = insert index (inprog m)"
      using None by (auto simp: inprog_def)
    show ?thesis
    proof (cases "drop index text = []")
      case True
      with None Suc.prems(4)
      have res: "res = Inr (Some ChainNull)"
        "m' = m\<lparr>trace := trace m @ [index], cache := (cache m)(index \<mapsto> Some ChainNull)\<rparr>"
        by (simp_all add: recur_end)
      have "inprog m' \<subseteq> inprog m"
        using res(2) by (auto simp: inprog_def)
      with res fresh Suc.prems(1,2) show ?thesis
        by (auto simp: trace_post_def trace_pre_def)
    next
      case False
      let ?ps = "prefixes_of (drop index text) trie"
      obtain res2 m2 where r2: "for_prefixes text trie depth index ?ps ?m1 = (res2, m2)"
        by (cases "for_prefixes text trie depth index ?ps ?m1")
      have pre1: "trace_pre text (Suc index) ?m1"
        using Suc.prems(1,2) fresh inprog1 by (auto simp: trace_pre_def)
      have ps: "\<forall>p\<in>set ?ps. p \<noteq> [] \<and> index + length p \<le> length text"
      proof
        fix p assume "p \<in> set ?ps"
        with A have "p \<noteq> []" "prefix p (drop index text)" by (auto simp: advancing_def)
        from this(2) have "length p \<le> length (drop index text)" by (rule prefix_length_le)
        with Suc.prems(2) \<open>p \<noteq> []\<close> show "p \<noteq> [] \<and> index + length p \<le> length text" by simp
      qed
      have fuel: "length text - index \<le> depth" using Suc.prems(3) by simp
      have post2: "trace_post text ?m1 res2 m2"
        using pre1 ps fuel r2 by (rule for_prefixes_progress [rotated]) (rule Suc.IH)
      then obtain r where r: "res2 = Inr r" by (auto simp: trace_post_def)
      with None False r2 Suc.prems(4)
      have res: "res = Inr r" "m' = m2\<lparr>cache := (cache m2)(index \<mapsto> r)\<rparr>"
        by (simp_all add: recur_step)
      have "inprog m' \<subseteq> inprog m2 - {index}"
        using res(2) by (auto simp: inprog_def)
      with post2 inprog1 have "inprog m' \<subseteq> inprog m"
        by (auto simp: trace_post_def)
      with post2 res show ?thesis by (auto simp: trace_post_def)
    qed
  qed
qed

subsection \<open>More frames do not change a returned value\<close>

lemma for_prefixes_mono:
  assumes IH: "\<And>index m r m'. recur text trie d index m = (Inr r, m') \<Longrightarrow>
                 recur text trie d' index m = (Inr r, m')"
  shows "for_prefixes text trie d index ps m = (Inr r, m') \<Longrightarrow>
         for_prefixes text trie d' index ps m = (Inr r, m')"
proof (induction ps arbitrary: m)
  case Nil
  then show ?case by simp
next
  case (Cons p ps)
  obtain res1 m1 where r1: "recur text trie d (index + length p) m = (res1, m1)"
    by (cases "recur text trie d (index + length p) m")
  with Cons.prems obtain r1v where rv: "res1 = Inr r1v"
    by (cases res1) auto
  with r1 have r1': "recur text trie d' (index + length p) m = (Inr r1v, m1)"
    by (simp add: IH)
  show ?case
  proof (cases r1v)
    case None
    with Cons.prems r1 rv have "for_prefixes text trie d index ps m1 = (Inr r, m')" by simp
    from Cons.IH [OF this] r1' None show ?thesis by simp
  next
    case (Some s)
    with Cons.prems r1 rv r1' show ?thesis by simp
  qed
qed

lemma recur_mono:
  "recur text trie d index m = (Inr r, m') \<Longrightarrow> d \<le> d' \<Longrightarrow>
   recur text trie d' index m = (Inr r, m')"
proof (induction d arbitrary: d' index m r m')
  case 0
  then show ?case
    by (cases "cache m index") (simp_all add: recur_zero recur_hit)
next
  case (Suc d)
  from Suc.prems(2) obtain d'' where d': "d' = Suc d''" "d \<le> d''"
    by (cases d') auto
  show ?case
  proof (cases "cache m index")
    case (Some v)
    with Suc.prems(1) show ?thesis by (simp add: recur_hit)
  next
    case None
    show ?thesis
    proof (cases "drop index text = []")
      case True
      with None Suc.prems(1) d' show ?thesis by (auto simp: recur_end)
    next
      case False
      let ?m1 = "m\<lparr>trace := trace m @ [index]\<rparr>"
      let ?ps = "prefixes_of (drop index text) trie"
      obtain res2 m2 where r2: "for_prefixes text trie d index ?ps ?m1 = (res2, m2)"
        by (cases "for_prefixes text trie d index ?ps ?m1")
      with None False Suc.prems(1) obtain r2v where rv: "res2 = Inr r2v"
        by (cases res2) (auto simp: recur_step)
      have "for_prefixes text trie d'' index ?ps ?m1 = (Inr r2v, m2)"
        using r2 [unfolded rv]
        by (rule for_prefixes_mono [rotated]) (rule Suc.IH [OF _ d'(2)])
      with None False Suc.prems(1) r2 rv d'(1) show ?thesis
        by (auto simp: recur_step)
    qed
  qed
qed

subsection \<open>The search from the empty cache\<close>

lemma trie_for_make_prefix_trie: "trie_for (set ws) (make_prefix_trie ws)"
  by (auto simp: trie_for_def prefixes_of_make_prefix_trie)

lemma advancing_make_prefix_trie: "[] \<notin> set ws \<Longrightarrow> advancing (make_prefix_trie ws)"
  by (auto simp: advancing_def prefixes_of_make_prefix_trie)

lemma cache_ok_empty_memo: "cache_ok D text empty_memo"
  by (simp add: cache_ok_def empty_memo_def)

lemma trace_pre_empty_memo: "trace_pre text 0 empty_memo"
  by (simp add: trace_pre_def empty_memo_def inprog_def)

lemma search_sound:
  assumes "recur text (make_prefix_trie ws) limit 0 empty_memo = (res, m')"
  shows "(\<forall>e. res = Inl e \<longrightarrow> e = RecursionError) \<and> (\<forall>r. res = Inr r \<longrightarrow> result_ok (set ws) text 0 r)"
  using recur_sound [OF trie_for_make_prefix_trie cache_ok_empty_memo assms]
  by (simp add: recur_post_def)

lemma search_total:
  assumes "[] \<notin> set ws" "length text < limit"
  shows "\<exists>r m'. recur text (make_prefix_trie ws) limit 0 empty_memo = (Inr r, m')
           \<and> result_ok (set ws) text 0 r
           \<and> distinct (trace m') \<and> (\<forall>j\<in>set (trace m'). j \<le> length text)"
proof -
  obtain res m' where r: "recur text (make_prefix_trie ws) limit 0 empty_memo = (res, m')"
    by (cases "recur text (make_prefix_trie ws) limit 0 empty_memo")
  have "trace_post text empty_memo res m'"
    using advancing_make_prefix_trie [OF assms(1)] trace_pre_empty_memo _ _ r
    by (rule recur_progress) (use assms(2) in simp_all)
  then obtain v where v: "res = Inr v" and tr: "distinct (trace m')"
      "\<forall>j\<in>set (trace m'). j \<le> length text"
    by (auto simp: trace_post_def)
  from search_sound [OF r] v have "result_ok (set ws) text 0 v" by simp
  with r v tr show ?thesis by blast
qed

lemma segmentable_symbol:
  "segmentable D s \<Longrightarrow> c \<in> set s \<Longrightarrow> \<exists>w\<in>D. c \<in> set w"
  unfolding segmentable_def by fastforce

lemma segmentation_found:
  assumes "[] \<notin> set D" "segmentable (set D) text" "text \<noteq> []" "length text < limit"
  shows "\<exists>out. set out \<subseteq> set D \<and> concat out = text
           \<and> solution_recursive limit text D = Inr (Some (join '' '' out))"
proof -
  from search_total [OF assms(1,4)] obtain r m' where
    r: "recur text (make_prefix_trie D) limit 0 empty_memo = (Inr r, m')"
    and ok: "result_ok (set D) text 0 r" by blast
  from ok assms(2) obtain c where c: "r = Some c" "set (chain_iter c) \<subseteq> set D"
    "concat (chain_iter c) = text" "c \<noteq> ChainNull"
    using assms(3) by (cases r) (auto simp: result_ok_def)
  from c(4) obtain v s where "c = ChainLink v s" by (cases c) auto
  with r c(1) have "solution_recursive limit text D = Inr (Some (join '' '' (chain_iter c)))"
    by (simp add: solution_recursive_def)
  with c show ?thesis by blast
qed

lemma empty_text_TypeError:
  "0 < limit \<Longrightarrow> solution_recursive limit [] ws = Inl TypeError"
  by (cases limit) (simp_all add: solution_recursive_def recur_end empty_memo_def)

text \<open>
  With the empty string in the dictionary the root carries a marker, every prefix query
  yields \<^verbatim>\<open>''\<close> first, and \<^verbatim>\<open>recur\<close> calls itself at the same index before
  anything is cached: on a non-empty text every number of frames is exhausted.
\<close>

lemma recur_empty_word:
  "marker trie = Some [] \<Longrightarrow> cache m index = None \<Longrightarrow> index < length text \<Longrightarrow>
   fst (recur text trie limit index m) = Inl RecursionError"
proof (induction limit arbitrary: m)
  case 0
  then show ?case by (simp add: recur_zero)
next
  case (Suc depth)
  let ?m1 = "m\<lparr>trace := trace m @ [index]\<rparr>"
  have "cache ?m1 index = None" using Suc.prems(2) by simp
  from Suc.IH [OF Suc.prems(1) this Suc.prems(3)]
  obtain m2 where "recur text trie depth index ?m1 = (Inl RecursionError, m2)"
    by (cases "recur text trie depth index ?m1") auto
  with Suc.prems show ?case
    by (simp add: recur_step prefixes_of_def)
qed

lemma empty_word_RecursionError:
  assumes "[] \<in> set ws" "text \<noteq> []"
  shows "solution_recursive limit text ws = Inl RecursionError"
proof -
  have "marker (make_prefix_trie ws) = Some []"
    using word_at_make_prefix_trie [of ws "[]"] assms(1) by simp
  from recur_empty_word [OF this, of empty_memo 0 "text" limit] assms(2)
  show ?thesis by (simp add: solution_recursive_def empty_memo_def)
qed

lemma scenario_eval:
  "fst (recur ''ininisbarfish''
          (make_prefix_trie [''foo'', ''bar'', ''fish'', ''h'', ''is'', ''ini'', ''in''])
          6 0 empty_memo)
     = Inr (Some (ChainLink ''in'' (ChainLink ''in'' (ChainLink ''is''
              (ChainLink ''bar'' (ChainLink ''fish'' ChainNull))))))"
  by (simp add: make_prefix_trie_def add_to_prefix_trie_def empty_trie_def prefixes_of_def
      recur.simps empty_memo_def prepend_def Let_def)

section \<open>The claims\<close>

text \<open>
  Claim C1 (round trip). For a dictionary \<open>D\<close> of non-empty words and a sequence
  \<open>ws\<close> of words of \<open>D\<close>, \<^verbatim>\<open>solution_recursive(concat(ws), D)\<close> should return a
  success whose words concatenate to the text. With enough frames this is what the
  code does for every non-empty sequence: it returns the words joined by single
  spaces. For the empty sequence the text is empty, \<^verbatim>\<open>recur(0)\<close> returns
  \<^verbatim>\<open>ChainLink.EMPTY\<close>, and \<^verbatim>\<open>' '.join\<close> raises \<open>TypeError\<close> on it.
\<close>

theorem round_trip:
  assumes "[] \<notin> set D" "set ws \<subseteq> set D" "length (concat ws) < limit"
  shows "if ws = []
         then solution_recursive limit (concat ws) D = Inl TypeError
         else (\<exists>out. set out \<subseteq> set D \<and> concat out = concat ws
                 \<and> solution_recursive limit (concat ws) D = Inr (Some (join '' '' out)))"
proof (cases "ws = []")
  case True
  with assms(3) show ?thesis by (simp add: empty_text_TypeError)
next
  case False
  then obtain w ws' where "ws = w # ws'" by (cases ws) auto
  with assms(1,2) have "concat ws \<noteq> []" by auto
  moreover have "segmentable (set D) (concat ws)"
    using assms(2) unfolding segmentable_def by blast
  ultimately show ?thesis
    using False segmentation_found [OF assms(1) _ _ assms(3)] by simp
qed

theorem round_trip_witness:
  "[] \<notin> set [''a''] \<and> set ([] :: string list) \<subseteq> set [''a'']
   \<and> length (concat ([] :: string list)) < 1
   \<and> solution_recursive 1 (concat []) [''a''] = Inl TypeError"
  using round_trip [of "[''a'']" "[]" 1] by simp

text \<open>
  Claim C2 (no segmentation). For a dictionary of non-empty words and a text that has
  no segmentation, \<^verbatim>\<open>solution_recursive\<close> should return \<^verbatim>\<open>None\<close> as a normal value. The
  search itself does return \<^verbatim>\<open>None\<close>, but the branch taken then evaluates the undefined
  name \<^verbatim>\<open>Non\<close>: the call raises \<open>NameError\<close>. The instance below is the text
  \<^verbatim>\<open>xyz\<close> with the dictionary \<^verbatim>\<open>{ab, cd}\<close>, whose symbol \<^verbatim>\<open>x\<close> occurs in no word.
\<close>

theorem no_segmentation_raises:
  assumes "[] \<notin> set D" "\<not> segmentable (set D) text" "length text < limit"
  shows "solution_recursive limit text D = Inl NameError"
proof -
  from search_total [OF assms(1,3)] obtain r m' where
    r: "recur text (make_prefix_trie D) limit 0 empty_memo = (Inr r, m')"
    and ok: "result_ok (set D) text 0 r" by blast
  have "r = None"
  proof (cases r)
    case (Some c)
    with ok have "set (chain_iter c) \<subseteq> set D" "concat (chain_iter c) = text"
      by (auto simp: result_ok_def)
    then have "segmentable (set D) text" unfolding segmentable_def by blast
    with assms(2) show ?thesis by simp
  qed simp
  with r show ?thesis by (simp add: solution_recursive_def)
qed

theorem no_segmentation_raises_witness:
  "[] \<notin> set [''ab'', ''cd''] \<and> \<not> segmentable (set [''ab'', ''cd'']) ''xyz''
   \<and> length ''xyz'' < 4
   \<and> solution_recursive 4 ''xyz'' [''ab'', ''cd''] = Inl NameError"
proof -
  have ns: "\<not> segmentable (set [''ab'', ''cd'']) ''xyz''"
    using segmentable_symbol [of "set [''ab'', ''cd'']" "''xyz''" "CHR ''x''"] by auto
  then show ?thesis
    using no_segmentation_raises [of "[''ab'', ''cd'']" "''xyz''" 4] by simp
qed

text \<open>
  Claim C3 (construction validation), as amended. \<^verbatim>\<open>make_prefix_trie\<close> validates
  nothing and has no failing path: for every dictionary it returns the complete index,
  in which exactly the members of the dictionary are stored, each at the node its
  letters lead to. A member that is the empty string is stored at the root. The
  claim as written, that construction fails when the empty string is a member, is
  refuted by the dictionary \<^verbatim>\<open>{'', 'a'}\<close>: the index is built, holds both words and
  answers a prefix query with both.
\<close>

theorem make_prefix_trie_no_validation:
  "word_at (make_prefix_trie ws) path = (if path \<in> set ws then Some path else None)
   \<and> marker (make_prefix_trie ws) = (if [] \<in> set ws then Some [] else None)"
  using word_at_make_prefix_trie [of ws path] word_at_make_prefix_trie [of ws "[]"]
  by simp

theorem empty_word_counterexample:
  "marker (make_prefix_trie [[], ''a'']) = Some []
   \<and> prefixes_of ''a'' (make_prefix_trie [[], ''a'']) = [[], ''a'']"
  by (simp add: make_prefix_trie_def add_to_prefix_trie_def empty_trie_def prefixes_of_def)

text \<open>
  Claim C4 (empty input). Segmenting the empty text should return a success with zero
  words, rendered as the empty string. The search does return the empty chain, which
  is not \<^verbatim>\<open>None\<close> and holds zero words; rendering it fails, because \<^verbatim>\<open>' '.join\<close> is
  applied to a \<^verbatim>\<open>ChainNull\<close> object, which is not iterable: the call raises
  \<open>TypeError\<close> for every dictionary.
\<close>

theorem empty_text_raises:
  "0 < limit \<Longrightarrow>
   fst (recur [] (make_prefix_trie ws) limit 0 empty_memo) = Inr (Some ChainNull)
   \<and> chain_iter ChainNull = []
   \<and> solution_recursive limit [] ws = Inl TypeError"
  by (cases limit) (simp_all add: solution_recursive_def recur_end empty_memo_def)

theorem empty_text_raises_witness:
  "(0::nat) < 1000
   \<and> solution_recursive 1000 [] [''foo'', ''bar'', ''fish'', ''h'', ''is'', ''ini'', ''in'']
       = Inl TypeError"
  using empty_text_raises [of 1000 "[''foo'', ''bar'', ''fish'', ''h'', ''is'', ''ini'', ''in'']"]
  by simp

text \<open>
  Claim C5 (prefix query). For the trie built from a dictionary, every text and every
  position, \<^verbatim>\<open>prefixes_of\<close> on the text from that position yields exactly the prefixes
  of the remaining text that are words of the dictionary, in the order of the
  prefixes, that is in strictly increasing length; and once the walk has met a symbol
  without an edge (after \<open>k\<close> symbols) nothing further is yielded: the output is that
  of the query on the first \<open>k\<close> symbols alone.
\<close>

theorem prefixes_of_exact:
  "prefixes_of (drop position text) (make_prefix_trie ws)
     = filter (\<lambda>p. p \<in> set ws) (prefixes (drop position text))
   \<and> sorted_wrt (\<lambda>p q. length p < length q)
        (prefixes_of (drop position text) (make_prefix_trie ws))
   \<and> (descend (make_prefix_trie ws) (take (Suc k) (drop position text)) = None \<longrightarrow>
        prefixes_of (drop position text) (make_prefix_trie ws)
          = prefixes_of (take k (drop position text)) (make_prefix_trie ws))"
proof (intro conjI impI)
  show "prefixes_of (drop position text) (make_prefix_trie ws)
          = filter (\<lambda>p. p \<in> set ws) (prefixes (drop position text))"
    by (rule prefixes_of_make_prefix_trie)
  show "sorted_wrt (\<lambda>p q. length p < length q)
          (prefixes_of (drop position text) (make_prefix_trie ws))"
    by (simp add: prefixes_of_make_prefix_trie sorted_wrt_filter sorted_wrt_length_prefixes)
  assume "descend (make_prefix_trie ws) (take (Suc k) (drop position text)) = None"
  then show "prefixes_of (drop position text) (make_prefix_trie ws)
               = prefixes_of (take k (drop position text)) (make_prefix_trie ws)"
    by (rule prefixes_of_short_circuit)
qed

theorem prefixes_of_exact_witness:
  "descend (make_prefix_trie [''in'', ''ini'', ''is'']) (take (Suc 3) (drop 2 ''ininis'')) = None
   \<and> prefixes_of (drop 2 ''ininis'') (make_prefix_trie [''in'', ''ini'', ''is''])
       = [''in'', ''ini'']
   \<and> prefixes_of (take 3 (drop 2 ''ininis'')) (make_prefix_trie [''in'', ''ini'', ''is''])
       = [''in'', ''ini'']"
  using prefixes_of_exact [of 2 "''ininis''" "[''in'', ''ini'', ''is'']" 3]
  by (simp add: make_prefix_trie_def add_to_prefix_trie_def empty_trie_def prefixes_of_def)

text \<open>
  Claim C6 (determinism). The only thing that can differ between two calls with the
  same text and the same set of words is the order in which the set is iterated. The
  result does not depend on it: two enumerations of the same set give the same trie,
  hence the same search and the same outcome.
\<close>

theorem solution_recursive_deterministic:
  "set ws = set ws' \<Longrightarrow> solution_recursive limit text ws = solution_recursive limit text ws'"
  by (simp add: solution_recursive_def make_prefix_trie_set_eq [of ws ws'])

theorem solution_recursive_deterministic_witness:
  "set [''a'', ''b''] = set [''b'', ''a'']
   \<and> solution_recursive 3 ''ab'' [''a'', ''b''] = solution_recursive 3 ''ab'' [''b'', ''a'']"
  using solution_recursive_deterministic [of "[''a'', ''b'']" "[''b'', ''a'']" 3 "''ab''"]
  by auto

text \<open>
  Claim C7 (termination and memoisation). For a dictionary of non-empty words, the
  search from the empty cache returns a value (it does not exhaust the frames) as soon
  as more frames than the text has symbols are available. The body of \<^verbatim>\<open>recur\<close> is
  entered at most once for each index, only for indices from \<open>0\<close> to the length of the
  text, hence at most \<open>length text + 1\<close> times; and every candidate word moves the
  index forward by at least one, never past the end of the text.
\<close>

theorem recur_terminates_memoised:
  assumes "[] \<notin> set ws" "length text < limit"
  shows "\<exists>r m'. recur text (make_prefix_trie ws) limit 0 empty_memo = (Inr r, m')
           \<and> distinct (trace m') \<and> set (trace m') \<subseteq> {0..length text}
           \<and> length (trace m') \<le> length text + 1
           \<and> (\<forall>index. \<forall>p\<in>set (prefixes_of (drop index text) (make_prefix_trie ws)).
                  index < index + length p \<and> index + length p \<le> length text)"
proof -
  from search_total [OF assms] obtain r m' where
    r: "recur text (make_prefix_trie ws) limit 0 empty_memo = (Inr r, m')"
    and d: "distinct (trace m')" and b: "\<forall>j\<in>set (trace m'). j \<le> length text"
    by blast
  from b have sub: "set (trace m') \<subseteq> {0..length text}" by auto
  have "length (trace m') = card (set (trace m'))"
    using d by (simp add: distinct_card)
  also have "\<dots> \<le> card {0..length text}"
    using sub by (intro card_mono) simp_all
  finally have len: "length (trace m') \<le> length text + 1" by simp
  have adv: "\<forall>index. \<forall>p\<in>set (prefixes_of (drop index text) (make_prefix_trie ws)).
                index < index + length p \<and> index + length p \<le> length text"
  proof (intro allI ballI)
    fix index p
    assume "p \<in> set (prefixes_of (drop index text) (make_prefix_trie ws))"
    then have p: "p \<in> set ws" "prefix p (drop index text)"
      by (simp_all add: prefixes_of_make_prefix_trie)
    with assms(1) have ne: "p \<noteq> []" by auto
    from p(2) have le: "length p \<le> length (drop index text)" by (rule prefix_length_le)
    with ne have "index < length text" by (cases "index < length text") auto
    with le ne show "index < index + length p \<and> index + length p \<le> length text" by simp
  qed
  from r d sub len adv show ?thesis by blast
qed

theorem recur_terminates_memoised_witness:
  "[] \<notin> set [''a'', ''aa''] \<and> length ''aaab'' < 5
   \<and> fst (recur ''aaab'' (make_prefix_trie [''a'', ''aa'']) 5 0 empty_memo) = Inr None
   \<and> trace (snd (recur ''aaab'' (make_prefix_trie [''a'', ''aa'']) 5 0 empty_memo)) = [0, 1, 2, 3]"
  using recur_terminates_memoised [of "[''a'', ''aa'']" "''aaab''" 5]
  by (simp add: make_prefix_trie_def add_to_prefix_trie_def empty_trie_def prefixes_of_def
      recur.simps empty_memo_def prepend_def Let_def)

text \<open>
  Claim C8 (the scenario of the module's main block). With the dictionary
  \<^verbatim>\<open>{foo, bar, fish, h, is, ini, in}\<close>, in whatever order the set is iterated, and the
  text \<^verbatim>\<open>ininisbarfish\<close>, the search returns the chain of the words
  \<^verbatim>\<open>in, in, is, bar, fish\<close>, which concatenate to the text, and the call returns
  \<^verbatim>\<open>in in is bar fish\<close>. Six nested frames are enough.
\<close>

theorem scenario_ininisbarfish:
  assumes "set ws = {''foo'', ''bar'', ''fish'', ''h'', ''is'', ''ini'', ''in''}" "6 \<le> limit"
  shows "\<exists>chain m'. recur ''ininisbarfish'' (make_prefix_trie ws) limit 0 empty_memo
                       = (Inr (Some chain), m')
           \<and> chain_iter chain = [''in'', ''in'', ''is'', ''bar'', ''fish'']
           \<and> concat (chain_iter chain) = ''ininisbarfish''
           \<and> solution_recursive limit ''ininisbarfish'' ws = Inr (Some ''in in is bar fish'')"
proof -
  let ?ws0 = "[''foo'', ''bar'', ''fish'', ''h'', ''is'', ''ini'', ''in'']"
  let ?c = "ChainLink ''in'' (ChainLink ''in'' (ChainLink ''is''
              (ChainLink ''bar'' (ChainLink ''fish'' ChainNull))))"
  have "set ws = set ?ws0" using assms(1) by simp
  then have trie: "make_prefix_trie ws = make_prefix_trie ?ws0"
    by (rule make_prefix_trie_set_eq)
  obtain m' where "recur ''ininisbarfish'' (make_prefix_trie ?ws0) 6 0 empty_memo
                     = (Inr (Some ?c), m')"
    using scenario_eval
    by (cases "recur ''ininisbarfish'' (make_prefix_trie ?ws0) 6 0 empty_memo") auto
  from recur_mono [OF this assms(2)]
  have r: "recur ''ininisbarfish'' (make_prefix_trie ws) limit 0 empty_memo = (Inr (Some ?c), m')"
    by (simp add: trie)
  then have "solution_recursive limit ''ininisbarfish'' ws = Inr (Some ''in in is bar fish'')"
    by (simp add: solution_recursive_def)
  with r show ?thesis by simp
qed

theorem scenario_ininisbarfish_witness:
  "set [''foo'', ''bar'', ''fish'', ''h'', ''is'', ''ini'', ''in'']
     = {''foo'', ''bar'', ''fish'', ''h'', ''is'', ''ini'', ''in''}
   \<and> (6::nat) \<le> 1000
   \<and> solution_recursive 1000 ''ininisbarfish''
        [''foo'', ''bar'', ''fish'', ''h'', ''is'', ''ini'', ''in'']
       = Inr (Some ''in in is bar fish'')"
  using scenario_ininisbarfish [of "[''foo'', ''bar'', ''fish'', ''h'', ''is'', ''ini'', ''in'']" 1000]
  by auto

text \<open>
  Claim C9 (idempotent insertion). Inserting a word into any trie a second time
  leaves the trie as the first insertion made it, and \<^verbatim>\<open>make_prefix_trie\<close> over an
  input in which a word occurs twice builds the same trie as over the input with the
  second occurrence removed. Neither function has a failing path.
\<close>

theorem insertion_idempotent:
  "add_to_prefix_trie (add_to_prefix_trie t w) w = add_to_prefix_trie t w
   \<and> make_prefix_trie (ws @ [w] @ ws' @ [w] @ ws'') = make_prefix_trie (ws @ [w] @ ws' @ ws'')"
proof
  show "add_to_prefix_trie (add_to_prefix_trie t w) w = add_to_prefix_trie t w"
    by (rule add_to_prefix_trie_idem)
  show "make_prefix_trie (ws @ [w] @ ws' @ [w] @ ws'') = make_prefix_trie (ws @ [w] @ ws' @ ws'')"
    by (rule make_prefix_trie_set_eq) auto
qed

text \<open>
  Claim C10 (output words come from the dictionary). Whenever \<^verbatim>\<open>solution_recursive\<close>
  returns a string, it is the join by single spaces of a sequence of words that are
  all members of the dictionary (and that concatenate to the text); and \<^verbatim>\<open>prefixes_of\<close>
  on the built trie yields members of the dictionary only.
\<close>

theorem output_words_in_dictionary:
  assumes "solution_recursive limit text ws = Inr (Some s)"
  shows "(\<exists>out. s = join '' '' out \<and> set out \<subseteq> set ws \<and> concat out = text)
         \<and> set (prefixes_of t (make_prefix_trie ws)) \<subseteq> set ws"
proof
  obtain res m' where r: "recur text (make_prefix_trie ws) limit 0 empty_memo = (res, m')"
    by (cases "recur text (make_prefix_trie ws) limit 0 empty_memo")
  with assms obtain c where c: "res = Inr (Some c)" "join_chain '' '' c = Inr s"
    by (auto simp: solution_recursive_def split: sum.splits option.splits)
  from search_sound [OF r] c(1)
  have ok: "set (chain_iter c) \<subseteq> set ws" "concat (chain_iter c) = text"
    by (auto simp: result_ok_def)
  from c(2) have "s = join '' '' (chain_iter c)" by (cases c) auto
  with ok show "\<exists>out. s = join '' '' out \<and> set out \<subseteq> set ws \<and> concat out = text" by blast
  show "set (prefixes_of t (make_prefix_trie ws)) \<subseteq> set ws"
    by (auto simp: prefixes_of_make_prefix_trie)
qed

theorem output_words_in_dictionary_witness:
  "solution_recursive 3 ''ab'' [''a'', ''b''] = Inr (Some ''a b'')
   \<and> (\<exists>out. ''a b'' = join '' '' out \<and> set out \<subseteq> set [''a'', ''b''] \<and> concat out = ''ab'')"
proof -
  have ev: "solution_recursive 3 ''ab'' [''a'', ''b''] = Inr (Some ''a b'')"
    by (simp add: solution_recursive_def make_prefix_trie_def add_to_prefix_trie_def
        empty_trie_def prefixes_of_def recur.simps empty_memo_def prepend_def Let_def)
  from output_words_in_dictionary [OF ev] ev show ?thesis by blast
qed

end
